theory Spec2Isabelle
  imports Main "HOL-Library.Sublist"
begin

section \<open>Python string primitives used by the agent\<close>

text \<open>
  Strings are character lists. These 8-bit strings carry ASCII text: \<open>lower_char\<close> and
  \<open>upper_char\<close> map the 26 Latin letters and leave every other character alone, which is
  what \<open>str.lower\<close> and \<open>str.upper\<close> do on ASCII text, and on ASCII text only. Every
  statement below that depends on what \<open>lower\<close> or \<open>capitalize\<close> compute is at an ASCII
  instruction. Python's case mapping beyond ASCII is the subject of the section on
  Unicode text, where a string is the list of its code points. The searching and
  splitting functions work on lists of any kind of character.
\<close>

definition upper_letters :: string where
  "upper_letters = ''ABCDEFGHIJKLMNOPQRSTUVWXYZ''"

definition lower_letters :: string where
  "lower_letters = ''abcdefghijklmnopqrstuvwxyz''"

definition lower_char :: "char \<Rightarrow> char" where
  "lower_char c = (case map_of (zip upper_letters lower_letters) c of Some d \<Rightarrow> d | None \<Rightarrow> c)"

definition upper_char :: "char \<Rightarrow> char" where
  "upper_char c = (case map_of (zip lower_letters upper_letters) c of Some d \<Rightarrow> d | None \<Rightarrow> c)"

text \<open>\<open>s.lower()\<close>\<close>

definition lower :: "string \<Rightarrow> string" where
  "lower s = map lower_char s"

text \<open>\<open>s.capitalize()\<close>: first character upper-cased, the rest lower-cased.\<close>

fun capitalize :: "string \<Rightarrow> string" where
  "capitalize [] = []"
| "capitalize (c # cs) = upper_char c # map lower_char cs"

text \<open>\<open>sub in s\<close>: \<open>sub\<close> occurs in \<open>s\<close> as a contiguous substring.\<close>

fun contains :: "'a list \<Rightarrow> 'a list \<Rightarrow> bool" where
  "contains sub [] = (sub = [])"
| "contains sub (c # cs) = (prefix sub (c # cs) \<or> contains sub cs)"

text \<open>
  \<open>s.split(sep)\<close> for a non-empty separator: the pieces between the leftmost
  non-overlapping occurrences of \<open>sep\<close>; the result always has at least one piece.
  Python raises \<open>ValueError\<close> on an empty separator; the agent only ever passes the
  literals \<open>"to "\<close>, \<open>"about "\<close>, \<open>" "\<close> and \<open>"."\<close>, and the model returns the
  unsplit string there.
\<close>

function split_str :: "'a list \<Rightarrow> 'a list \<Rightarrow> 'a list list" where
  "split_str sep [] = [[]]"
| "split_str sep (c # cs) =
     (if sep \<noteq> [] \<and> prefix sep (c # cs)
      then [] # split_str sep (drop (length sep) (c # cs))
      else (case split_str sep cs of
              [] \<Rightarrow> [[c]]
            | p # ps \<Rightarrow> (c # p) # ps))"
  by pat_completeness auto
termination
  by (relation "measure (\<lambda>(sep, s). length s)") (auto simp: neq_Nil_conv)

text \<open>
  \<open>s.replace(pat, rep)\<close>: every leftmost non-overlapping occurrence of \<open>pat\<close> is replaced.
  For the empty pattern Python inserts \<open>rep\<close> before every character and at the end.
\<close>

function replace_str :: "string \<Rightarrow> string \<Rightarrow> string \<Rightarrow> string" where
  "replace_str pat rep [] = (if pat = [] then rep else [])"
| "replace_str pat rep (c # cs) =
     (if pat = [] then rep @ c # replace_str pat rep cs
      else if prefix pat (c # cs)
      then rep @ replace_str pat rep (drop (length pat) (c # cs))
      else c # replace_str pat rep cs)"
  by pat_completeness auto
termination
  by (relation "measure (\<lambda>(pat, rep, s). length s)") (auto simp: neq_Nil_conv)

section \<open>Data model\<close>

datatype EmailService = GMAIL | OUTLOOK

text \<open>The \<open>value\<close> of an enum member.\<close>

fun service_value :: "EmailService \<Rightarrow> string" where
  "service_value GMAIL = ''gmail''"
| "service_value OUTLOOK = ''outlook''"

record EmailInstruction =
  recipient :: string
  subject :: string
  body :: string
  service :: EmailService

section \<open>\<open>LLMClient.parse_email_instruction\<close>\<close>

definition default_recipient :: string where
  "default_recipient = ''test@example.com''"

definition default_subject :: string where
  "default_subject = ''Automated Email''"

definition default_body :: string where
  "default_body = ''This is an automated email sent by the Humaein AI agent.''"

text \<open>
  The recipient branch. \<open>parts[1]\<close> and \<open>split(" ")[0]\<close> are guarded as in the source:
  \<open>len(parts) > 1\<close> is tested before \<open>parts[1]\<close>, and \<open>split\<close> never returns an empty list.
\<close>

definition parse_recipient :: "string \<Rightarrow> string" where
  "parse_recipient instruction =
     (if contains ''to '' (lower instruction) then
        (let parts = split_str ''to '' (lower instruction) in
         if length parts > 1 then
           (let recipient_part = hd (split_str '' '' (parts ! 1)) in
            if contains ''@'' recipient_part then recipient_part else default_recipient)
         else default_recipient)
      else default_recipient)"

definition parse_subject :: "string \<Rightarrow> string" where
  "parse_subject instruction =
     (if contains ''about '' (lower instruction) then
        (let parts = split_str ''about '' (lower instruction) in
         if length parts > 1 then capitalize (hd (split_str ''.'' (parts ! 1)))
         else default_subject)
      else default_subject)"

definition parse_service :: "string \<Rightarrow> EmailService" where
  "parse_service instruction =
     (if contains ''gmail'' (lower instruction) then GMAIL
      else if contains ''outlook'' (lower instruction) then OUTLOOK
      else GMAIL)"

definition parse_email_instruction :: "string \<Rightarrow> EmailInstruction" where
  "parse_email_instruction instruction =
     \<lparr> recipient = parse_recipient instruction,
       subject = parse_subject instruction,
       body = default_body,
       service = parse_service instruction \<rparr>"

section \<open>\<open>LLMClient.analyze_ui_and_generate_actions\<close>\<close>

text \<open>
  An action is a Python dict with string keys and string values, kept as an association
  list in the order of the dict literal; \<open>action[k]\<close> is \<open>map_of action k\<close>, and a missing
  key is Python's \<open>KeyError\<close>.
\<close>

type_synonym action = "(string \<times> string) list"

definition gmail_actions :: "action list" where
  "gmail_actions =
    [[(''action'', ''click''), (''selector'', ''div[role='button'][gh='cm']''),
      (''description'', ''Click compose button'')],
     [(''action'', ''fill''), (''selector'', ''input[aria-label='To']''),
      (''value'', ''${recipient}''), (''description'', ''Fill recipient field'')],
     [(''action'', ''fill''), (''selector'', ''input[aria-label='Subject']''),
      (''value'', ''${subject}''), (''description'', ''Fill subject field'')],
     [(''action'', ''fill''), (''selector'', ''div[aria-label='Message Body']''),
      (''value'', ''${body}''), (''description'', ''Fill body field'')],
     [(''action'', ''click''), (''selector'', ''div[role='button'][aria-label*='Send']''),
      (''description'', ''Click send button'')]]"

definition outlook_actions :: "action list" where
  "outlook_actions =
    [[(''action'', ''click''), (''selector'', ''button[aria-label='New message']''),
      (''description'', ''Click new message button'')],
     [(''action'', ''fill''), (''selector'', ''input[aria-label='To']''),
      (''value'', ''${recipient}''), (''description'', ''Fill recipient field'')],
     [(''action'', ''fill''), (''selector'', ''input[aria-label='Add a subject']''),
      (''value'', ''${subject}''), (''description'', ''Fill subject field'')],
     [(''action'', ''fill''), (''selector'', ''div[aria-label='Message body']''),
      (''value'', ''${body}''), (''description'', ''Fill body field'')],
     [(''action'', ''click''), (''selector'', ''button[aria-label='Send']''),
      (''description'', ''Click send button'')]]"

definition analyze_ui_and_generate_actions :: "string \<Rightarrow> string \<Rightarrow> action list" where
  "analyze_ui_and_generate_actions html goal =
     (if contains ''gmail'' (lower goal) then gmail_actions else outlook_actions)"

section \<open>The browser as an environment\<close>

text \<open>
  Every call the agent makes on the Playwright page, browser and driver is recorded, in
  order, in the world's \<open>calls\<close>. Whether a call raises is decided by the environment from
  the calls made so far and the call itself (\<open>Some msg\<close>: it raises with that message), so
  that every behaviour of a deterministic browser is an environment. The log is the
  sequence of records handed to the logger.
\<close>

datatype call =
    Goto string
  | WaitForTimeout nat
  | Click string
  | Fill string string
  | Content
  | BrowserClose
  | PlaywrightStop

datatype exn = KeyError string | PageError string

datatype log_entry =
    Info string
  | ParsedData EmailInstruction
  | ActionFailed action exn
  | SendFailed exn

record world =
  calls :: "call list"
  logs :: "log_entry list"

record browser =
  raises :: "call list \<Rightarrow> call \<Rightarrow> string option"
  markup :: "call list \<Rightarrow> string"

definition log_to :: "log_entry \<Rightarrow> world \<Rightarrow> world" where
  "log_to entry w = w\<lparr>logs := logs w @ [entry]\<rparr>"

text \<open>One call on the browser: it is recorded, and it either returns or raises.\<close>

definition page_op :: "browser \<Rightarrow> call \<Rightarrow> world \<Rightarrow> exn option \<times> world" where
  "page_op env c w =
     (case raises env (calls w) c of
        None \<Rightarrow> (None, w\<lparr>calls := calls w @ [c]\<rparr>)
      | Some msg \<Rightarrow> (Some (PageError msg), w\<lparr>calls := calls w @ [c]\<rparr>))"

text \<open>Sequencing of statements: an exception skips the rest.\<close>

definition and_then ::
  "exn option \<times> world \<Rightarrow> (world \<Rightarrow> exn option \<times> world) \<Rightarrow> exn option \<times> world" where
  "and_then r f = (case r of (None, w) \<Rightarrow> f w | (Some e, w) \<Rightarrow> (Some e, w))"

section \<open>\<open>WebAutomationAgent.execute_actions\<close>\<close>

text \<open>The bindings are the items of the \<open>data\<close> dict, in insertion order.\<close>

type_synonym bindings = "(string \<times> string) list"

text \<open>The placeholder loop: \<open>for key, val in data.items(): value = value.replace(f"${{{key}}}", val)\<close>.\<close>

fun resolve_value :: "bindings \<Rightarrow> string \<Rightarrow> string" where
  "resolve_value [] v = v"
| "resolve_value ((key, val) # rest) v =
     resolve_value rest (replace_str (''${'' @ key @ ''}'') val v)"

text \<open>The body of the \<open>try\<close> block for one action.\<close>

definition try_action :: "browser \<Rightarrow> action \<Rightarrow> bindings \<Rightarrow> world \<Rightarrow> exn option \<times> world" where
  "try_action env a data w =
     (case map_of a ''action'' of
        None \<Rightarrow> (Some (KeyError ''action''), w)
      | Some action_type \<Rightarrow>
     (case map_of a ''selector'' of
        None \<Rightarrow> (Some (KeyError ''selector''), w)
      | Some selector \<Rightarrow>
     (case map_of a ''description'' of
        None \<Rightarrow> (Some (KeyError ''description''), w)
      | Some description \<Rightarrow>
        and_then
          (let w1 = log_to (Info (''Executing: '' @ description)) w in
           if action_type = ''click'' then page_op env (Click selector) w1
           else if action_type = ''fill'' then
             (case map_of a ''value'' of
                None \<Rightarrow> (Some (KeyError ''value''), w1)
              | Some v \<Rightarrow> page_op env (Fill selector (resolve_value data v)) w1)
           else (None, w1))
          (page_op env (WaitForTimeout 1000)))))"

text \<open>The loop: an exception of the body is logged with the action, and the loop goes on.\<close>

fun execute_actions :: "browser \<Rightarrow> action list \<Rightarrow> bindings \<Rightarrow> world \<Rightarrow> world" where
  "execute_actions env [] data w = w"
| "execute_actions env (a # as) data w =
     (case try_action env a data w of
        (None, w') \<Rightarrow> execute_actions env as data w'
      | (Some e, w') \<Rightarrow> execute_actions env as data (log_to (ActionFailed a e) w'))"

section \<open>\<open>WebAutomationAgent.send_email\<close> and the endpoint\<close>

definition navigate_to_service :: "browser \<Rightarrow> EmailService \<Rightarrow> world \<Rightarrow> exn option \<times> world" where
  "navigate_to_service env svc w =
     and_then
       (if svc = GMAIL
        then and_then (page_op env (Goto ''https://mail.google.com'') w)
               (\<lambda>w. (None, log_to (Info ''Navigated to Gmail'') w))
        else and_then (page_op env (Goto ''https://outlook.live.com'') w)
               (\<lambda>w. (None, log_to (Info ''Navigated to Outlook'') w)))
       (page_op env (WaitForTimeout 3000))"

definition mock_authentication :: "browser \<Rightarrow> EmailService \<Rightarrow> world \<Rightarrow> exn option \<times> world" where
  "mock_authentication env svc w =
     page_op env (WaitForTimeout 2000)
       (log_to (Info (''Mock authentication for '' @ service_value svc)) w)"

text \<open>The body of the \<open>try\<close> block of \<open>send_email\<close>.\<close>

definition send_email_body :: "browser \<Rightarrow> string \<Rightarrow> world \<Rightarrow> exn option \<times> world" where
  "send_email_body env instruction w =
     (let w0 = log_to (Info (''Parsing instruction: '' @ instruction)) w;
          email_data = parse_email_instruction instruction;
          w1 = log_to (ParsedData email_data) w0
      in and_then (navigate_to_service env (service email_data) w1) (\<lambda>w2.
         and_then (mock_authentication env (service email_data) w2) (\<lambda>w3.
         (let html = markup env (calls w3) in
          and_then (page_op env Content w3) (\<lambda>w4.
          (let goal = ''Send email using '' @ service_value (service email_data);
               w5 = log_to (Info (''Analyzing UI for goal: '' @ goal)) w4;
               actions = analyze_ui_and_generate_actions html goal;
               data = [(''recipient'', recipient email_data),
                       (''subject'', subject email_data),
                       (''body'', body email_data)];
               w6 = execute_actions env actions data w5
           in (None, log_to (Info ''Email sent successfully!'') w6)))))))"

text \<open>The \<open>finally\<close> block: three calls in sequence, none of them guarded.\<close>

definition cleanup :: "browser \<Rightarrow> world \<Rightarrow> exn option \<times> world" where
  "cleanup env w =
     and_then (page_op env (WaitForTimeout 3000) w) (\<lambda>w.
     and_then (page_op env BrowserClose w) (\<lambda>w.
     page_op env PlaywrightStop w))"

text \<open>
  \<open>send_email\<close>: \<open>try\<close> body, \<open>except Exception\<close> (log and swallow), \<open>finally\<close>. The result
  \<open>Some e\<close> is an exception that leaves \<open>send_email\<close>.
\<close>

definition send_email :: "browser \<Rightarrow> string \<Rightarrow> world \<Rightarrow> exn option \<times> world" where
  "send_email env instruction w =
     (case send_email_body env instruction w of
        (None, w') \<Rightarrow> cleanup env w'
      | (Some e, w') \<Rightarrow> cleanup env (log_to (SendFailed e) w'))"

record response =
  status :: string
  message :: string

text \<open>\<open>str(e)\<close>\<close>

fun str_exn :: "exn \<Rightarrow> string" where
  "str_exn (KeyError k) = [CHR 39] @ k @ [CHR 39]"
| "str_exn (PageError msg) = msg"

definition send_email_endpoint :: "browser \<Rightarrow> string \<Rightarrow> world \<Rightarrow> response \<times> world" where
  "send_email_endpoint env instruction w =
     (case send_email env instruction w of
        (None, w') \<Rightarrow> (\<lparr>status = ''success'', message = ''Email sent successfully''\<rparr>, w')
      | (Some e, w') \<Rightarrow> (\<lparr>status = ''error'', message = str_exn e\<rparr>, w'))"

section \<open>Concrete inputs and environments\<close>

definition w_init :: world where
  "w_init = \<lparr>calls = [], logs = []\<rparr>"

text \<open>The instruction of the end-to-end scenario, and the two of the script's main block.\<close>

definition example_instruction :: string where
  "example_instruction = ''Send an email to a@b.com about the meeting using Gmail''"

definition main_instruction_1 :: string where
  "main_instruction_1 =
     ''Send an email to colleague@company.com about the project update using Gmail''"

definition main_instruction_2 :: string where
  "main_instruction_2 =
     ''Send an email to friend@example.com about our weekend plans using Outlook''"

text \<open>Calls on the page, as opposed to calls on the browser and the driver.\<close>

fun is_page_call :: "call \<Rightarrow> bool" where
  "is_page_call BrowserClose = False"
| "is_page_call PlaywrightStop = False"
| "is_page_call c = True"

definition closed_msg :: string where
  "closed_msg = ''Target page, context or browser has been closed''"

text \<open>A browser in which nothing ever raises.\<close>

definition healthy_env :: browser where
  "healthy_env = \<lparr>raises = (\<lambda>h c. None), markup = (\<lambda>h. [])\<rparr>"

text \<open>A session whose page is gone (crashed, or its window closed): every call on the
  page raises, the browser and the driver still answer.\<close>

definition closed_page_env :: browser where
  "closed_page_env =
     \<lparr>raises = (\<lambda>h c. if is_page_call c then Some closed_msg else None),
      markup = (\<lambda>h. [])\<rparr>"

text \<open>A browser whose page raises on every call made after \<open>browser.close()\<close>.\<close>

definition close_aware_env :: browser where
  "close_aware_env =
     \<lparr>raises = (\<lambda>h c. if is_page_call c \<and> BrowserClose \<in> set h then Some closed_msg else None),
      markup = (\<lambda>h. [])\<rparr>"

text \<open>A browser whose navigation fails and in which every other call succeeds.\<close>

definition nav_fail_env :: browser where
  "nav_fail_env =
     \<lparr>raises = (\<lambda>h c. case c of Goto u \<Rightarrow> Some ''net::ERR_INTERNET_DISCONNECTED'' | _ \<Rightarrow> None),
      markup = (\<lambda>h. [])\<rparr>"

section \<open>Notions used in the statements about the executor\<close>

text \<open>An action the planner could emit: a click or a fill with all the keys its kind reads.\<close>

definition well_formed :: "action \<Rightarrow> bool" where
  "well_formed a =
     (map_of a ''selector'' \<noteq> None \<and> map_of a ''description'' \<noteq> None \<and>
      (map_of a ''action'' = Some ''click'' \<or>
       (map_of a ''action'' = Some ''fill'' \<and> map_of a ''value'' \<noteq> None)))"

text \<open>The page call that a well-formed action is dispatched to.\<close>

definition dispatch_of :: "bindings \<Rightarrow> action \<Rightarrow> call" where
  "dispatch_of data a =
     (if map_of a ''action'' = Some ''click'' then Click (the (map_of a ''selector''))
      else Fill (the (map_of a ''selector'')) (resolve_value data (the (map_of a ''value''))))"

fun is_dispatch :: "call \<Rightarrow> bool" where
  "is_dispatch (Click sel) = True"
| "is_dispatch (Fill sel v) = True"
| "is_dispatch c = False"

text \<open>A browser in which filling the Gmail subject field times out.\<close>

definition subject_fails_env :: browser where
  "subject_fails_env =
     \<lparr>raises = (\<lambda>h c. case c of
          Fill sel v \<Rightarrow>
            if sel = ''input[aria-label='Subject']'' then Some ''Timeout 30000ms exceeded''
            else None
        | _ \<Rightarrow> None),
      markup = (\<lambda>h. [])\<rparr>"

definition example_data :: bindings where
  "example_data =
     [(''recipient'', ''a@b.com''), (''subject'', ''The meeting using gmail''),
      (''body'', default_body)]"

section \<open>Notions used in the statements about placeholders\<close>



section \<open>The recipient rule as the specification words it\<close>

text \<open>
  The specification's reading of the recipient rule, written from its words and kept
  apart from \<open>parse_recipient\<close>, which is the code: the token is the text after the first
  \<open>"to "\<close> of the lower-cased instruction up to the next whitespace character, and it is
  the recipient when it contains \<open>@\<close>.
\<close>

definition whitespace_chars :: "char list" where
  "whitespace_chars = [CHR '' '', CHR 0x09, CHR 0x0A, CHR 0x0B, CHR 0x0C, CHR 0x0D]"

fun after_first :: "string \<Rightarrow> string \<Rightarrow> string option" where
  "after_first sub [] = (if sub = [] then Some [] else None)"
| "after_first sub (c # cs) =
     (if prefix sub (c # cs) then Some (drop (length sub) (c # cs)) else after_first sub cs)"

definition spec_recipient :: "string \<Rightarrow> string" where
  "spec_recipient instruction =
     (case after_first ''to '' (lower instruction) of
        None \<Rightarrow> default_recipient
      | Some rest \<Rightarrow>
          (let token = takeWhile (\<lambda>c. c \<notin> set whitespace_chars) rest in
           if CHR ''@'' \<in> set token then token else default_recipient))"

text \<open>An instruction in which a tab, not a space, follows the address.\<close>

definition tab_instruction :: string where
  "tab_instruction = ''mail to a@b.com'' @ CHR 0x09 # ''now''"

section \<open>Templates\<close>









section \<open>Unicode text\<close>

text \<open>
  A Python string is a sequence of Unicode code points, and \<open>str.lower\<close> maps them by
  Python's case tables, which are no part of the repository. They are recorded here for
  the code points below 256 (ASCII and Latin-1: the upper-case letters are \<open>A\<close> to \<open>Z\<close>,
  U+00C0 to U+00D6 and U+00D8 to U+00DE, each 32 below its lower-case form) and for
  U+2102, the double-struck capital C, an upper-case letter that \<open>str.lower\<close> leaves as
  it is. The lower-casing of a string with any other code point is outside this record,
  and is \<open>None\<close>.
\<close>

type_synonym ustring = "nat list"

definition code_points :: "string \<Rightarrow> ustring" where
  "code_points s = map of_char s"

definition recorded_cp :: "nat \<Rightarrow> bool" where
  "recorded_cp c = (c < 256 \<or> c = 0x2102)"

text \<open>\<open>c.isupper()\<close> and \<open>c.lower()\<close> at a recorded code point.\<close>

definition upper_cp :: "nat \<Rightarrow> bool" where
  "upper_cp c =
     ((65 \<le> c \<and> c \<le> 90) \<or> (192 \<le> c \<and> c \<le> 222 \<and> c \<noteq> 215) \<or> c = 0x2102)"

definition lower_cp :: "nat \<Rightarrow> nat" where
  "lower_cp c =
     (if (65 \<le> c \<and> c \<le> 90) \<or> (192 \<le> c \<and> c \<le> 222 \<and> c \<noteq> 215) then c + 32 else c)"

definition lower_u :: "ustring \<Rightarrow> ustring option" where
  "lower_u s = (if list_all recorded_cp s then Some (map lower_cp s) else None)"

text \<open>
  The recipient branch of \<open>parse_email_instruction\<close> on code points: \<open>recipient_in\<close> is
  the branch, given \<open>instruction.lower()\<close>, with the literals of the source as code
  points.
\<close>

definition recipient_in :: "ustring \<Rightarrow> ustring" where
  "recipient_in low =
     (if contains (code_points ''to '') low then
        (let parts = split_str (code_points ''to '') low in
         if length parts > 1 then
           (let recipient_part = hd (split_str (code_points '' '') (parts ! 1)) in
            if contains (code_points ''@'') recipient_part then recipient_part
            else code_points default_recipient)
         else code_points default_recipient)
      else code_points default_recipient)"

definition parse_recipient_u :: "ustring \<Rightarrow> ustring option" where
  "parse_recipient_u instruction = map_option recipient_in (lower_u instruction)"

text \<open>The instruction \<open>Mail to C@X.com about x\<close> with U+2102 for the \<open>C\<close>.\<close>

definition double_struck_instruction :: ustring where
  "double_struck_instruction =
     code_points ''Mail to '' @ 0x2102 # code_points ''@X.com about x''"

definition john_instruction :: string where
  "john_instruction = ''Send an email to John@Example.com''"

section \<open>Evaluation rules\<close>

lemmas str_defs = lower_def lower_char_def upper_char_def upper_letters_def lower_letters_def

lemmas parse_defs = parse_email_instruction_def parse_recipient_def parse_subject_def
  parse_service_def default_recipient_def default_subject_def

lemmas run_defs = send_email_endpoint_def send_email_def send_email_body_def cleanup_def
  navigate_to_service_def mock_authentication_def and_then_def page_op_def log_to_def
  try_action_def analyze_ui_and_generate_actions_def

lemma parse_example:
  "parse_email_instruction example_instruction =
     \<lparr>recipient = ''a@b.com'', subject = ''The meeting using gmail'',
      body = default_body, service = GMAIL\<rparr>"
  by (simp add: example_instruction_def parse_defs str_defs)

lemma parse_main_1:
  "parse_email_instruction main_instruction_1 =
     \<lparr>recipient = ''colleague@company.com'', subject = ''The project update using gmail'',
      body = default_body, service = GMAIL\<rparr>"
  by (simp add: main_instruction_1_def parse_defs str_defs)

lemma parse_main_2:
  "parse_email_instruction main_instruction_2 =
     \<lparr>recipient = ''friend@example.com'', subject = ''Our weekend plans using outlook'',
      body = default_body, service = OUTLOOK\<rparr>"
  by (simp add: main_instruction_2_def parse_defs str_defs)

section \<open>The planner\<close>

text \<open>
  C8. The planner's result depends on the goal alone: two markups give the same action
  list, the list has five actions, and it is the Gmail list when the lower-cased goal
  contains \<open>gmail\<close> and the other list for every other goal.
\<close>

theorem planner_fixed_by_goal:
  "analyze_ui_and_generate_actions markup1 goal = analyze_ui_and_generate_actions markup2 goal
   \<and> length (analyze_ui_and_generate_actions markup1 goal) = 5
   \<and> analyze_ui_and_generate_actions markup1 goal =
       (if contains ''gmail'' (lower goal) then gmail_actions else outlook_actions)"
  by (simp add: analyze_ui_and_generate_actions_def gmail_actions_def outlook_actions_def)

section \<open>The end-to-end scenario\<close>

text \<open>
  C6, as the claim states it, fails: the subject parsed from the scenario's instruction
  is not \<open>The meeting\<close>. The instruction has no full stop after \<open>about \<close>, so the subject
  runs to the end of the lower-cased instruction.
\<close>

theorem scenario_subject_counterexample:
  "parse_email_instruction example_instruction \<noteq>
     \<lparr>recipient = ''a@b.com'', subject = ''The meeting'',
      body = default_body, service = GMAIL\<rparr>"
  by (simp add: parse_example)

text \<open>
  C6, amended. Parsing the scenario's instruction yields recipient \<open>a@b.com\<close>, subject
  \<open>The meeting using gmail\<close>, the default body and the Gmail service, and the planner,
  called with the goal built from that service, returns the five Gmail actions.
\<close>

theorem scenario_parse_and_plan:
  "parse_email_instruction example_instruction =
     \<lparr>recipient = ''a@b.com'', subject = ''The meeting using gmail'',
      body = default_body, service = GMAIL\<rparr>
   \<and> analyze_ui_and_generate_actions html
        (''Send email using '' @ service_value (service (parse_email_instruction example_instruction)))
       = gmail_actions
   \<and> length gmail_actions = 5"
  by (simp add: parse_example analyze_ui_and_generate_actions_def str_defs gmail_actions_def)

section \<open>Pieces of a split\<close>

lemma split_str_nonempty: "split_str sep s \<noteq> []"
  by (induction sep s rule: split_str.induct) (auto split: list.splits)

section \<open>Order of substitution\<close>

text \<open>
  C9. The placeholder loop rewrites the text one binding after the other. With the
  recipient bound to text that contains \<open>${subject}\<close> and the subject bound later, the
  template \<open>${recipient}\<close> is filled with the subject's value in place of \<open>${subject}\<close>;
  with the subject bound first, the literal \<open>${subject}\<close> stays. The executor hands the
  rewritten text to the page.
\<close>

theorem substitution_is_sequential:
  "resolve_value
     [(''recipient'', ''${subject}@x.com''), (''subject'', ''Hello''), (''body'', default_body)]
     ''${recipient}'' = ''Hello@x.com''
   \<and> resolve_value
     [(''subject'', ''Hello''), (''recipient'', ''${subject}@x.com''), (''body'', default_body)]
     ''${recipient}'' = ''${subject}@x.com''
   \<and> calls (execute_actions healthy_env
         [[(''action'', ''fill''), (''selector'', ''#to''), (''value'', ''${recipient}''),
           (''description'', ''Fill recipient field'')]]
         [(''recipient'', ''${subject}@x.com''), (''subject'', ''Hello''), (''body'', default_body)]
         w_init)
       = [Fill ''#to'' ''Hello@x.com'', WaitForTimeout 1000]"
  by (simp add: run_defs healthy_env_def w_init_def default_body_def)

section \<open>The send operation\<close>

text \<open>When the three calls of the \<open>finally\<close> block succeed, \<open>send_email\<close> returns and
  the block's calls are the last calls made.\<close>

lemma cleanup_succeeds:
  assumes "\<And>h. raises env h (WaitForTimeout 3000) = None"
    and "\<And>h. raises env h BrowserClose = None"
    and "\<And>h. raises env h PlaywrightStop = None"
  shows "cleanup env w =
    (None, w\<lparr>calls := calls w @ [WaitForTimeout 3000, BrowserClose, PlaywrightStop]\<rparr>)"
  using assms by (simp add: cleanup_def and_then_def page_op_def)

lemma send_email_returns_when_cleanup_succeeds:
  assumes "\<And>h. raises env h (WaitForTimeout 3000) = None"
    and "\<And>h. raises env h BrowserClose = None"
    and "\<And>h. raises env h PlaywrightStop = None"
  shows "fst (send_email env i w) = None"
  by (cases "send_email_body env i w")
     (auto simp: send_email_def cleanup_succeeds[OF assms] split: option.splits)

text \<open>On a browser that is already closed, navigation raises, the exception is caught
  and logged, and the first call of the \<open>finally\<close> block raises in turn.\<close>

lemma send_after_close:
  "BrowserClose \<in> set (calls w) \<Longrightarrow>
   fst (send_email close_aware_env i w) = Some (PageError closed_msg)
   \<and> calls (snd (send_email close_aware_env i w)) =
       calls w @ [Goto (if service (parse_email_instruction i) = GMAIL
                        then ''https://mail.google.com'' else ''https://outlook.live.com''),
                  WaitForTimeout 3000]
   \<and> SendFailed (PageError closed_msg) \<in> set (logs (snd (send_email close_aware_env i w)))"
  by (simp add: send_email_def send_email_body_def cleanup_def navigate_to_service_def
      and_then_def page_op_def log_to_def close_aware_env_def Let_def)

lemma first_send_closes:
  "fst (send_email close_aware_env main_instruction_1 w_init) = None
   \<and> BrowserClose \<in> set (calls (snd (send_email close_aware_env main_instruction_1 w_init)))"
  by (simp add: run_defs parse_main_1 close_aware_env_def w_init_def gmail_actions_def str_defs)

text \<open>
  C2, at a failing input. The page of the session is gone, so navigation raises; the
  exception is caught, and the \<open>finally\<close> block starts with a wait on the same page,
  which raises too. \<open>browser.close()\<close> and \<open>playwright.stop()\<close> are never called: the only
  calls of the run are the navigation and the wait, and the exception leaves \<open>send_email\<close>.
\<close>

theorem send_email_closed_page_no_release:
  "fst (send_email closed_page_env example_instruction w_init) = Some (PageError closed_msg)
   \<and> calls (snd (send_email closed_page_env example_instruction w_init))
       = [Goto ''https://mail.google.com'', WaitForTimeout 3000]
   \<and> BrowserClose \<notin> set (calls (snd (send_email closed_page_env example_instruction w_init)))"
  by (simp add: run_defs parse_example closed_page_env_def w_init_def)

text \<open>
  C3, at a failing input: the script's own main block, which sends two instructions
  through one agent. The first send returns and closes the browser. In the second send
  navigation raises on the closed browser, the exception is caught and logged, and the wait
  of the \<open>finally\<close> block raises an exception that leaves \<open>send_email\<close>.
\<close>

theorem second_send_propagates:
  "fst (send_email close_aware_env main_instruction_1 w_init) = None
   \<and> fst (send_email close_aware_env main_instruction_2
           (snd (send_email close_aware_env main_instruction_1 w_init)))
       = Some (PageError closed_msg)
   \<and> SendFailed (PageError closed_msg)
       \<in> set (logs (snd (send_email close_aware_env main_instruction_2
                           (snd (send_email close_aware_env main_instruction_1 w_init)))))"
  using first_send_closes
    send_after_close[of "snd (send_email close_aware_env main_instruction_1 w_init)"
      main_instruction_2]
  by simp

text \<open>The endpoint reports an error exactly when an exception leaves \<open>send_email\<close>.\<close>

lemma endpoint_status:
  "status (fst (send_email_endpoint env i w)) =
     (if fst (send_email env i w) = None then ''success'' else ''error'')"
  by (cases "send_email env i w") (auto simp: send_email_endpoint_def split: option.splits)

text \<open>
  C4, at a failing input. Navigation fails; \<open>send_email\<close> catches and logs the exception,
  runs the \<open>finally\<close> block and returns, so the endpoint answers \<open>success\<close>.
\<close>

theorem endpoint_reports_success_on_failure:
  "fst (send_email_endpoint nav_fail_env example_instruction w_init)
     = \<lparr>status = ''success'', message = ''Email sent successfully''\<rparr>
   \<and> calls (snd (send_email_endpoint nav_fail_env example_instruction w_init))
     = [Goto ''https://mail.google.com'', WaitForTimeout 3000, BrowserClose, PlaywrightStop]
   \<and> SendFailed (PageError ''net::ERR_INTERNET_DISCONNECTED'')
       \<in> set (logs (snd (send_email_endpoint nav_fail_env example_instruction w_init)))"
  by (simp add: run_defs parse_example nav_fail_env_def w_init_def)

section \<open>Fault isolation in the executor\<close>

lemma execute_actions_append:
  "execute_actions env (xs @ ys) data w =
     execute_actions env ys data (execute_actions env xs data w)"
  by (induction xs arbitrary: w) (auto split: prod.splits option.splits)

lemma page_op_calls [simp]: "calls (snd (page_op env c w)) = calls w @ [c]"
  by (simp add: page_op_def split: option.splits)

lemma page_op_logs [simp]: "logs (snd (page_op env c w)) = logs w"
  by (simp add: page_op_def split: option.splits)

lemma page_op_fst: "fst (page_op env c w) = map_option PageError (raises env (calls w) c)"
  by (simp add: page_op_def split: option.splits)

lemma log_to_calls [simp]: "calls (log_to e w) = calls w"
  by (simp add: log_to_def)

lemma log_to_logs [simp]: "logs (log_to e w) = logs w @ [e]"
  by (simp add: log_to_def)

lemma and_then_calls:
  "calls (snd (and_then r f)) =
     (case fst r of None \<Rightarrow> calls (snd (f (snd r))) | Some e \<Rightarrow> calls (snd r))"
  by (cases r) (auto simp: and_then_def split: option.splits)

lemma and_then_logs:
  "logs (snd (and_then r f)) =
     (case fst r of None \<Rightarrow> logs (snd (f (snd r))) | Some e \<Rightarrow> logs (snd r))"
  by (cases r) (auto simp: and_then_def split: option.splits)

lemma and_then_fst:
  "fst (and_then r f) = (case fst r of None \<Rightarrow> fst (f (snd r)) | Some e \<Rightarrow> Some e)"
  by (cases r) (auto simp: and_then_def split: option.splits)

text \<open>One action: a raising page call makes the \<open>try\<close> body raise; the call is made either way.\<close>

lemma try_action_raises:
  assumes "well_formed a" and "raises env (calls w) (dispatch_of data a) = Some msg"
  shows "fst (try_action env a data w) = Some (PageError msg)"
  using assms
  by (auto simp: well_formed_def dispatch_of_def try_action_def and_then_fst page_op_fst Let_def)

lemma try_action_dispatch:
  assumes "well_formed a"
  shows "filter is_dispatch (calls (snd (try_action env a data w)))
    = filter is_dispatch (calls w) @ [dispatch_of data a]"
  using assms
  by (auto simp: well_formed_def dispatch_of_def try_action_def and_then_calls Let_def
      split: option.splits)

lemma try_action_no_dispatch:
  assumes "\<not> well_formed a"
  shows "filter is_dispatch (calls (snd (try_action env a data w))) = filter is_dispatch (calls w)"
  using assms
  by (auto simp: well_formed_def try_action_def and_then_calls Let_def split: option.splits)

lemma try_action_logs: "set (logs w) \<subseteq> set (logs (snd (try_action env a data w)))"
  by (auto simp: try_action_def and_then_logs Let_def split: option.splits)

text \<open>The loop never drops a log record.\<close>

lemma execute_actions_logs: "set (logs w) \<subseteq> set (logs (execute_actions env as data w))"
proof (induction as arbitrary: w)
  case Nil
  show ?case by simp
next
  case (Cons a as)
  obtain e w' where t: "try_action env a data w = (e, w')"
    by (cases "try_action env a data w")
  have l: "set (logs w) \<subseteq> set (logs w')"
    using try_action_logs[of w env a data] t by simp
  show ?case
  proof (cases e)
    case None
    then show ?thesis using t l Cons.IH[of w'] by auto
  next
    case (Some x)
    have "set (logs w') \<subseteq> set (logs (log_to (ActionFailed a x) w'))" by auto
    then show ?thesis using t l Some Cons.IH[of "log_to (ActionFailed a x) w'"] by auto
  qed
qed

text \<open>The click and fill calls of a run are those of its well-formed actions, in order.\<close>

lemma execute_actions_dispatch:
  "filter is_dispatch (calls (execute_actions env as data w))
     = filter is_dispatch (calls w) @ map (dispatch_of data) (filter well_formed as)"
proof (induction as arbitrary: w)
  case Nil
  show ?case by simp
next
  case (Cons a as)
  obtain e w' where t: "try_action env a data w = (e, w')"
    by (cases "try_action env a data w")
  have d: "filter is_dispatch (calls w')
      = filter is_dispatch (calls w) @ map (dispatch_of data) (filter well_formed [a])"
  proof (cases "well_formed a")
    case True
    then show ?thesis using try_action_dispatch[of a env data w] t by simp
  next
    case False
    then show ?thesis using try_action_no_dispatch[of a env data w] t by simp
  qed
  show ?case
  proof (cases e)
    case None
    then show ?thesis using t d Cons.IH[of w'] by simp
  next
    case (Some x)
    then show ?thesis using t d Cons.IH[of "log_to (ActionFailed a x) w'"] by simp
  qed
qed

lemma execute_actions_logs_failure:
  assumes "well_formed (as ! i)" and "i < length as"
    and "raises env (calls (execute_actions env (take i as) data w))
           (dispatch_of data (as ! i)) = Some msg"
  shows "ActionFailed (as ! i) (PageError msg) \<in> set (logs (execute_actions env as data w))"
proof -
  let ?w = "execute_actions env (take i as) data w"
  let ?entry = "ActionFailed (as ! i) (PageError msg)"
  have wf: "well_formed (as ! i)" by (rule assms(1))
  obtain e w' where t: "try_action env (as ! i) data ?w = (e, w')"
    by (cases "try_action env (as ! i) data ?w")
  have e: "e = Some (PageError msg)" using try_action_raises[OF wf assms(3)] t by simp
  have parts: "as = take i as @ (as ! i) # drop (Suc i) as"
    using assms(2) by (rule id_take_nth_drop)
  have "execute_actions env as data w
      = execute_actions env ((as ! i) # drop (Suc i) as) data ?w"
    using execute_actions_append[of env "take i as" "(as ! i) # drop (Suc i) as" data w] parts
    by simp
  also have "\<dots> = execute_actions env (drop (Suc i) as) data (log_to ?entry w')"
    using t e by simp
  finally have eq: "execute_actions env as data w
      = execute_actions env (drop (Suc i) as) data (log_to ?entry w')" .
  have "?entry \<in> set (logs (log_to ?entry w'))" by simp
  then show ?thesis
    using execute_actions_logs[of "log_to ?entry w'" env "drop (Suc i) as" data] eq by auto
qed

text \<open>
  C1. For every action list, every bindings map and every browser, whichever page calls
  raise: the click and fill calls that the executor makes are exactly the calls of the
  well-formed click and fill actions of the list, one per action and in the order of the
  list (an action that lacks a key it reads, or is of another kind, reaches no click or
  fill); and whenever the page call of the well-formed action at some position raises,
  the exception is caught and a failure record holding that action (its description with
  it) and the exception is in the log of the completed run.
\<close>

theorem execute_actions_fault_isolation:
  "filter is_dispatch (calls (execute_actions env actions data w))
     = filter is_dispatch (calls w) @ map (dispatch_of data) (filter well_formed actions)
   \<and> (\<forall>i msg. i < length actions \<and> well_formed (actions ! i)
         \<and> raises env (calls (execute_actions env (take i actions) data w))
              (dispatch_of data (actions ! i)) = Some msg
       \<longrightarrow> ActionFailed (actions ! i) (PageError msg)
             \<in> set (logs (execute_actions env actions data w)))"
  using execute_actions_dispatch[of env actions data w]
    execute_actions_logs_failure[of actions _ env data w]
  by blast

lemma gmail_actions_well_formed: "list_all well_formed gmail_actions"
  by (simp add: gmail_actions_def well_formed_def)

lemma third_gmail_action_raises:
  "raises subject_fails_env
     (calls (execute_actions subject_fails_env (take 2 gmail_actions) example_data w_init))
     (dispatch_of example_data (gmail_actions ! 2)) = Some ''Timeout 30000ms exceeded''"
  by (simp add: gmail_actions_def dispatch_of_def subject_fails_env_def)

text \<open>The five Gmail actions with the third one raising: all five are dispatched, the
  fourth and the fifth after the failure, and the failure of the third is logged.\<close>

theorem execute_actions_fault_isolation_witness:
  "list_all well_formed gmail_actions
   \<and> filter is_dispatch
        (calls (execute_actions subject_fails_env gmail_actions example_data w_init))
       = [Click ''div[role='button'][gh='cm']'',
          Fill ''input[aria-label='To']'' ''a@b.com'',
          Fill ''input[aria-label='Subject']'' ''The meeting using gmail'',
          Fill ''div[aria-label='Message Body']'' default_body,
          Click ''div[role='button'][aria-label*='Send']'']
   \<and> ActionFailed (gmail_actions ! 2) (PageError ''Timeout 30000ms exceeded'')
       \<in> set (logs (execute_actions subject_fails_env gmail_actions example_data w_init))"
proof -
  have d: "map (dispatch_of example_data) gmail_actions
       = [Click ''div[role='button'][gh='cm']'',
          Fill ''input[aria-label='To']'' ''a@b.com'',
          Fill ''input[aria-label='Subject']'' ''The meeting using gmail'',
          Fill ''div[aria-label='Message Body']'' default_body,
          Click ''div[role='button'][aria-label*='Send']'']"
    by (simp add: gmail_actions_def dispatch_of_def example_data_def default_body_def)
  have l: "(2::nat) < length gmail_actions" by (simp add: gmail_actions_def)
  have f: "filter well_formed gmail_actions = gmail_actions"
    using gmail_actions_well_formed by (simp add: list_all_iff)
  have wf: "well_formed (gmail_actions ! 2)"
    using gmail_actions_well_formed l by (simp add: list_all_length)
  from execute_actions_fault_isolation[of subject_fails_env gmail_actions example_data w_init]
  show ?thesis
    using gmail_actions_well_formed d l f wf third_gmail_action_raises
    by (simp add: w_init_def)
qed

section \<open>Filling placeholders\<close>

lemma contains_sublist: "contains sub s = sublist sub s"
  by (induction s) (simp_all add: sublist_Cons_right)

lemma contains_iff: "contains sub s \<longleftrightarrow> (\<exists>u v. s = u @ sub @ v)"
  by (simp add: contains_sublist sublist_def)























section \<open>The recipient rule\<close>

lemma contains_single: "contains [c] s \<longleftrightarrow> c \<in> set s"
  by (induction s) auto

lemma split_str_match: "sep \<noteq> [] \<Longrightarrow> split_str sep (sep @ rest) = [] # split_str sep rest"
  by (cases sep) auto

lemma split_str_first:
  assumes "sep \<noteq> []" "\<not> contains sep (pre @ butlast sep)"
  shows "split_str sep (pre @ sep @ rest) = pre # split_str sep rest"
  using assms(2)
proof (induction pre)
  case Nil
  show ?case using split_str_match[OF assms(1)] by simp
next
  case (Cons c pre)
  from Cons.prems have np: "\<not> prefix sep (c # pre @ butlast sep)"
    and nc: "\<not> contains sep (pre @ butlast sep)" by simp_all
  have "\<not> prefix sep (c # pre @ sep @ rest)"
  proof
    assume p: "prefix sep (c # pre @ sep @ rest)"
    have q: "prefix (c # pre @ butlast sep) (c # pre @ sep @ rest)"
      using assms(1) by (simp add: prefixeq_butlast)
    have "length sep \<le> length (c # pre @ butlast sep)" using assms(1) by simp
    from prefix_length_prefix[OF p q this] np show False by simp
  qed
  then have "split_str sep ((c # pre) @ sep @ rest) =
      (case split_str sep (pre @ sep @ rest) of [] \<Rightarrow> [[c]] | p # ps \<Rightarrow> (c # p) # ps)"
    by simp
  with Cons.IH[OF nc] show ?case by simp
qed

lemma hd_split_str_single: "hd (split_str [c] s) = takeWhile (\<lambda>x. x \<noteq> c) s"
proof (induction s)
  case Nil
  show ?case by simp
next
  case (Cons x xs)
  obtain p ps where "split_str [c] xs = p # ps"
    using split_str_nonempty[of "[c]" xs] by (cases "split_str [c] xs") auto
  with Cons show ?case by auto
qed

lemma token_of_first_piece:
  assumes "\<not> (suffix ''to'' (takeWhile (\<lambda>c. c \<noteq> CHR '' '') rest) \<and> takeWhile (\<lambda>c. c \<noteq> CHR '' '') rest \<noteq> rest)"
  shows "takeWhile (\<lambda>c. c \<noteq> CHR '' '') (hd (split_str ''to '' rest)) = takeWhile (\<lambda>c. c \<noteq> CHR '' '') rest"
  using assms
proof (induction rest)
  case Nil
  show ?case by simp
next
  case (Cons c cs)
  let ?tw = "takeWhile (\<lambda>c. c \<noteq> CHR '' '')"
  show ?case
  proof (cases "prefix ''to '' (c # cs)")
    case True
    then obtain more where m: "c # cs = ''to '' @ more" by (auto simp: prefix_def)
    then have "?tw (c # cs) = ''to''" by simp
    with Cons.prems m show ?thesis by (simp add: suffix_def)
  next
    case False
    obtain p ps where s: "split_str ''to '' cs = p # ps"
      using split_str_nonempty[of "''to ''" cs] by (cases "split_str ''to '' cs") auto
    with False have h: "hd (split_str ''to '' (c # cs)) = c # hd (split_str ''to '' cs)" by simp
    show ?thesis
    proof (cases "c = CHR '' ''")
      case True
      with h show ?thesis by simp
    next
      case nsp: False
      have "\<not> (suffix ''to'' (?tw cs) \<and> ?tw cs \<noteq> cs)"
      proof
        assume a: "suffix ''to'' (?tw cs) \<and> ?tw cs \<noteq> cs"
        then have "suffix ''to'' (c # ?tw cs)" by (simp add: suffix_Cons)
        with a nsp Cons.prems show False by simp
      qed
      from Cons.IH[OF this] h nsp show ?thesis by simp
    qed
  qed
qed

lemma recipient_part_is_token:
  assumes "\<not> (suffix ''to'' (takeWhile (\<lambda>c. c \<noteq> CHR '' '') rest)
             \<and> takeWhile (\<lambda>c. c \<noteq> CHR '' '') rest \<noteq> rest)"
  shows "hd (split_str '' '' (hd (split_str ''to '' rest))) = takeWhile (\<lambda>c. c \<noteq> CHR '' '') rest"
  by (simp only: hd_split_str_single token_of_first_piece[OF assms])

lemma parse_recipient_first_to:
  assumes l: "lower i = pre @ ''to '' @ rest"
    and nf: "\<not> contains ''to '' (pre @ ''to'')"
    and pv: "\<not> (suffix ''to'' (takeWhile (\<lambda>c. c \<noteq> CHR '' '') rest)
             \<and> takeWhile (\<lambda>c. c \<noteq> CHR '' '') rest \<noteq> rest)"
  shows "parse_recipient i =
     (if CHR ''@'' \<in> set (takeWhile (\<lambda>c. c \<noteq> CHR '' '') rest)
      then takeWhile (\<lambda>c. c \<noteq> CHR '' '') rest else default_recipient)"
proof -
  let ?tok = "takeWhile (\<lambda>c. c \<noteq> CHR '' '') rest"
  have c: "contains ''to '' (lower i)" unfolding contains_iff using l by blast
  have "butlast ''to '' = ''to''" by simp
  then have sp: "split_str ''to '' (lower i) = pre # split_str ''to '' rest"
    unfolding l using nf split_str_first[of "''to ''" pre rest] by simp
  obtain p ps where r: "split_str ''to '' rest = p # ps"
    using split_str_nonempty[of "''to ''" rest] by (cases "split_str ''to '' rest") auto
  have len: "length (split_str ''to '' (lower i)) > 1" unfolding sp r by simp
  have part: "split_str ''to '' (lower i) ! 1 = hd (split_str ''to '' rest)" unfolding sp r by simp
  have tok: "hd (split_str '' '' (split_str ''to '' (lower i) ! 1)) = ?tok"
    unfolding part by (rule recipient_part_is_token[OF pv])
  have "parse_recipient i = (if contains ''@'' ?tok then ?tok else default_recipient)"
    unfolding parse_recipient_def Let_def tok using c len by simp
  then show ?thesis unfolding contains_single .
qed

text \<open>
  C7, as the claim states it, fails: the code cuts the candidate at the next space
  character only. With a tab after the address, the whitespace-delimited token is
  \<open>a@b.com\<close>, and the parsed recipient is the address, the tab and the word after it.
\<close>

theorem recipient_tab_counterexample:
  "parse_recipient tab_instruction = ''a@b.com'' @ CHR 0x09 # ''now''
   \<and> spec_recipient tab_instruction = ''a@b.com''
   \<and> parse_recipient tab_instruction \<noteq> spec_recipient tab_instruction"
  by (simp add: tab_instruction_def parse_recipient_def spec_recipient_def
      whitespace_chars_def str_defs)

text \<open>The candidate is also cut at a later \<open>"to "\<close>: an address that ends in \<open>to\<close> and is
  followed by a space loses its last two letters.\<close>

lemma recipient_cut_at_later_to:
  "parse_recipient ''Send an email to bob@bit.to about the launch'' = ''bob@bit.''
   \<and> spec_recipient ''Send an email to bob@bit.to about the launch'' = ''bob@bit.to''"
  by (simp add: parse_recipient_def spec_recipient_def whitespace_chars_def str_defs)

text \<open>
  C7, amended. The parser is total. If the lower-cased instruction does not contain
  \<open>"to "\<close>, the recipient is the default address. Otherwise let the token be the text
  after the first \<open>"to "\<close> up to the next space character, or to the end. Unless the token
  ends in \<open>to\<close> and is followed by a space (the cut of the lemma above, on which nothing
  is stated), the recipient is the token when it contains \<open>@\<close>, and the default address
  when it does not.
\<close>

theorem parse_recipient_rule:
  "(\<not> contains ''to '' (lower i) \<longrightarrow> parse_recipient i = default_recipient)
   \<and> (lower i = pre @ ''to '' @ rest \<and> \<not> contains ''to '' (pre @ ''to'')
       \<and> tok = takeWhile (\<lambda>c. c \<noteq> CHR '' '') rest
       \<and> \<not> (suffix ''to'' tok \<and> tok \<noteq> rest)
      \<longrightarrow> parse_recipient i = (if CHR ''@'' \<in> set tok then tok else default_recipient))"
proof (intro conjI impI)
  assume "\<not> contains ''to '' (lower i)"
  then show "parse_recipient i = default_recipient" unfolding parse_recipient_def by simp
next
  assume a: "lower i = pre @ ''to '' @ rest \<and> \<not> contains ''to '' (pre @ ''to'')
       \<and> tok = takeWhile (\<lambda>c. c \<noteq> CHR '' '') rest
       \<and> \<not> (suffix ''to'' tok \<and> tok \<noteq> rest)"
  from a have l: "lower i = pre @ ''to '' @ rest" by (rule conjunct1)
  from a have nf: "\<not> contains ''to '' (pre @ ''to'')" by (elim conjE)
  from a have t: "tok = takeWhile (\<lambda>c. c \<noteq> CHR '' '') rest" by (elim conjE)
  from a have "\<not> (suffix ''to'' tok \<and> tok \<noteq> rest)" by (elim conjE)
  then have pv: "\<not> (suffix ''to'' (takeWhile (\<lambda>c. c \<noteq> CHR '' '') rest)
             \<and> takeWhile (\<lambda>c. c \<noteq> CHR '' '') rest \<noteq> rest)" unfolding t .
  show "parse_recipient i = (if CHR ''@'' \<in> set tok then tok else default_recipient)"
    unfolding t by (rule parse_recipient_first_to[OF l nf pv])
qed

lemma lower_john:
  "lower ''Send an email to John@Example.com about x''
     = ''send an email '' @ ''to '' @ ''john@example.com about x''"
  by (simp add: str_defs)

lemma john_not_cut:
  "\<not> (suffix ''to'' ''john@example.com''
       \<and> ''john@example.com'' \<noteq> ''john@example.com about x'')"
  by (simp add: suffix_Cons)

theorem parse_recipient_rule_witness:
  "lower ''Send an email to John@Example.com about x''
     = ''send an email '' @ ''to '' @ ''john@example.com about x''
   \<and> \<not> contains ''to '' (''send an email '' @ ''to'')
   \<and> ''john@example.com'' = takeWhile (\<lambda>c. c \<noteq> CHR '' '') ''john@example.com about x''
   \<and> \<not> (suffix ''to'' ''john@example.com''
          \<and> ''john@example.com'' \<noteq> ''john@example.com about x'')
   \<and> parse_recipient ''Send an email to John@Example.com about x'' = ''john@example.com''
   \<and> \<not> contains ''to '' (lower ''Hello there'')
   \<and> parse_recipient ''Hello there'' = default_recipient"
proof -
  have n: "\<not> contains ''to '' (''send an email '' @ ''to'')" by simp
  have t: "''john@example.com'' = takeWhile (\<lambda>c. c \<noteq> CHR '' '') ''john@example.com about x''"
    by simp
  have h: "\<not> contains ''to '' (lower ''Hello there'')" by (simp add: str_defs)
  have "parse_recipient ''Send an email to John@Example.com about x''
      = (if CHR ''@'' \<in> set ''john@example.com'' then ''john@example.com''
         else default_recipient)"
    by (rule mp[OF conjunct2[OF parse_recipient_rule
          [of "''Send an email to John@Example.com about x''" "''send an email ''"
              "''john@example.com about x''" "''john@example.com''"]]])
       (intro conjI lower_john n t john_not_cut)
  then have r: "parse_recipient ''Send an email to John@Example.com about x''
      = ''john@example.com''"
    by simp
  have d: "parse_recipient ''Hello there'' = default_recipient"
    by (rule mp[OF conjunct1[OF parse_recipient_rule[of "''Hello there''" "[]" "[]" "[]"]] h])
  show ?thesis by (intro conjI lower_john n t john_not_cut r h d)
qed

section \<open>Case of the recipient\<close>

text \<open>The first piece of a split is a prefix of the text, every other piece a contiguous
  part of it.\<close>

lemma split_str_pieces:
  "split_str sep s = q # qs \<Longrightarrow> prefix q s \<and> (\<forall>p\<in>set qs. sublist p s)"
proof (induction sep s arbitrary: q qs rule: split_str.induct)
  case (1 sep)
  then show ?case by simp
next
  case (2 sep c cs)
  show ?case
  proof (cases "sep \<noteq> [] \<and> prefix sep (c # cs)")
    case True
    let ?rest = "drop (length sep) (c # cs)"
    from True "2.prems" have q: "q = []" and qs: "qs = split_str sep ?rest" by simp_all
    obtain q' qs' where s': "split_str sep ?rest = q' # qs'"
      using split_str_nonempty[of sep ?rest] by (cases "split_str sep ?rest") auto
    from "2.IH"(1)[OF True s'] have a: "prefix q' ?rest" and b: "\<forall>p\<in>set qs'. sublist p ?rest" by simp_all
    have d: "sublist ?rest (c # cs)" using suffix_drop by (rule suffix_imp_sublist)
    have "\<forall>p\<in>set qs. sublist p (c # cs)"
    proof
      fix p assume "p \<in> set qs"
      with qs s' have "p = q' \<or> p \<in> set qs'" by auto
      then have "sublist p ?rest" using a b by auto
      then show "sublist p (c # cs)" using d by (rule sublist_order.order.trans)
    qed
    with q show ?thesis by simp
  next
    case False
    obtain q' qs' where s': "split_str sep cs = q' # qs'"
      using split_str_nonempty[of sep cs] by (cases "split_str sep cs") auto
    from "2.IH"(2)[OF False s'] have a: "prefix q' cs" and b: "\<forall>p\<in>set qs'. sublist p cs" by simp_all
    from False "2.prems" s' have q: "q = c # q'" and qs: "qs = qs'" by auto
    show ?thesis using a b q qs by (auto simp: sublist_Cons_right)
  qed
qed

lemma recipient_in_cases:
  "recipient_in low = code_points default_recipient \<or> sublist (recipient_in low) low"
proof (cases "contains (code_points ''to '') low \<and> length (split_str (code_points ''to '') low) > 1
    \<and> contains (code_points ''@'') (hd (split_str (code_points '' '') (split_str (code_points ''to '') low ! 1)))")
  case True
  let ?parts = "split_str (code_points ''to '') low"
  let ?part = "?parts ! 1"
  from True have r: "recipient_in low = hd (split_str (code_points '' '') ?part)"
    by (simp add: recipient_in_def Let_def)
  obtain q qs where p: "?parts = q # qs" using True by (cases ?parts) auto
  with True have "qs \<noteq> []" by auto
  then have "?part \<in> set qs" using p by (cases qs) auto
  with split_str_pieces[OF p] have a: "sublist ?part low" by blast
  obtain q2 qs2 where p2: "split_str (code_points '' '') ?part = q2 # qs2"
    using split_str_nonempty[of "code_points '' ''" ?part] by (cases "split_str (code_points '' '') ?part") auto
  from split_str_pieces[OF p2] have "sublist q2 ?part" by auto
  then have "sublist q2 low" using a by (rule sublist_order.order.trans)
  with r p2 show ?thesis by simp
next
  case False
  then show ?thesis by (auto simp: recipient_in_def Let_def)
qed

lemma lower_cp_not_upper: "c < 256 \<Longrightarrow> \<not> upper_cp (lower_cp c)"
  by (auto simp: upper_cp_def lower_cp_def)

lemma default_not_upper: "list_all (\<lambda>c. \<not> upper_cp c) (code_points default_recipient)"
  by (simp add: code_points_def default_recipient_def upper_cp_def)

lemma latin1_recipient:
  assumes "list_all (\<lambda>c. c < 256) i"
  shows "parse_recipient_u i = Some (recipient_in (map lower_cp i))
     \<and> list_all (\<lambda>c. \<not> upper_cp c) (recipient_in (map lower_cp i))"
proof -
  have rec: "list_all recorded_cp i" using assms by (auto simp: list_all_iff recorded_cp_def)
  then have p: "parse_recipient_u i = Some (recipient_in (map lower_cp i))"
    by (simp add: parse_recipient_u_def lower_u_def)
  have low: "\<forall>c\<in>set (map lower_cp i). \<not> upper_cp c"
    using assms lower_cp_not_upper by (auto simp: list_all_iff)
  from recipient_in_cases[of "map lower_cp i"]
  have "list_all (\<lambda>c. \<not> upper_cp c) (recipient_in (map lower_cp i))"
  proof
    assume "recipient_in (map lower_cp i) = code_points default_recipient"
    then show ?thesis using default_not_upper by simp
  next
    assume "sublist (recipient_in (map lower_cp i)) (map lower_cp i)"
    then have "set (recipient_in (map lower_cp i)) \<subseteq> set (map lower_cp i)" by (rule set_mono_sublist)
    with low show ?thesis by (auto simp: list_all_iff)
  qed
  with p show ?thesis by simp
qed

text \<open>On ASCII text the code-point parser and the 8-bit parser agree.\<close>

lemma prefix_map_inj: "inj f \<Longrightarrow> prefix (map f xs) (map f ys) \<longleftrightarrow> prefix xs ys"
proof (induction xs arbitrary: ys)
  case Nil
  show ?case by simp
next
  case (Cons x xs)
  then show ?case by (cases ys) (auto dest: injD)
qed

lemma contains_map_inj: "inj f \<Longrightarrow> contains (map f sub) (map f s) \<longleftrightarrow> contains sub s"
proof (induction s)
  case Nil
  show ?case by simp
next
  case (Cons c cs)
  have "prefix (map f sub) (map f (c # cs)) \<longleftrightarrow> prefix sub (c # cs)"
    using Cons.prems by (rule prefix_map_inj)
  with Cons show ?case by simp
qed

lemma split_str_map_inj:
  "inj f \<Longrightarrow> split_str (map f sep) (map f s) = map (map f) (split_str sep s)"
proof (induction sep s rule: split_str.induct)
  case (1 sep)
  show ?case by simp
next
  case (2 sep c cs)
  have pm: "prefix (map f sep) (map f (c # cs)) \<longleftrightarrow> prefix sep (c # cs)"
    using "2.prems" by (rule prefix_map_inj)
  show ?case
  proof (cases "sep \<noteq> [] \<and> prefix sep (c # cs)")
    case True
    have "split_str (map f sep) (map f (c # cs))
        = [] # split_str (map f sep) (drop (length (map f sep)) (map f (c # cs)))"
      using True pm by simp
    also have "drop (length (map f sep)) (map f (c # cs)) = map f (drop (length sep) (c # cs))"
      by (simp only: length_map drop_map)
    finally show ?thesis using "2.IH"(1)[OF True "2.prems"] True by simp
  next
    case False
    obtain q qs where s: "split_str sep cs = q # qs"
      using split_str_nonempty[of sep cs] by (cases "split_str sep cs") auto
    have "split_str (map f sep) (map f (c # cs))
        = (case split_str (map f sep) (map f cs) of [] \<Rightarrow> [[f c]] | p # ps \<Rightarrow> (f c # p) # ps)"
      using False pm by auto
    then show ?thesis using "2.IH"(2)[OF False "2.prems"] False s by simp
  qed
qed

lemma lower_cp_of_char:
  assumes "of_char c < (128::nat)"
  shows "lower_cp (of_char c) = of_char (lower_char c)"
proof (cases "c \<in> set upper_letters")
  case True
  then show ?thesis
    by (auto simp: upper_letters_def lower_letters_def lower_char_def lower_cp_def)
next
  case False
  then have "lower_char c = c"
    by (auto simp: upper_letters_def lower_letters_def lower_char_def)
  moreover have "\<not> (65 \<le> (of_char c :: nat) \<and> (of_char c :: nat) \<le> 90)"
  proof
    assume a: "65 \<le> (of_char c :: nat) \<and> (of_char c :: nat) \<le> 90"
    then have "(of_char c :: nat) \<in> {65..90}" by simp
    also have "{65..90::nat} = of_char ` set upper_letters"
      apply (simp add: upper_letters_def atLeastAtMost_def atLeast_def atMost_def)
      apply (auto simp: image_iff)
      apply arith
      done
    finally show False using False by (auto simp: inj_of_char[THEN injD])
  qed
  ultimately show ?thesis using assms by (simp add: lower_cp_def)
qed


lemma lower_u_code_points:
  assumes "list_all (\<lambda>c. of_char c < (128::nat)) s"
  shows "lower_u (code_points s) = Some (code_points (lower s))"
proof -
  have "list_all recorded_cp (code_points s)"
    using assms by (auto simp: list_all_iff code_points_def recorded_cp_def)
  moreover have "map lower_cp (code_points s) = code_points (lower s)"
    using assms by (induction s) (simp_all add: code_points_def lower_def lower_cp_of_char)
  ultimately show ?thesis by (simp add: lower_u_def)
qed

lemma recipient_in_code_points:
  "recipient_in (code_points (lower s)) = code_points (parse_recipient s)"
proof -
  let ?f = "of_char :: char \<Rightarrow> nat"
  let ?low = "lower s"
  have i: "inj ?f" by (rule inj_of_char)
  have c1: "contains (code_points ''to '') (code_points ?low) = contains ''to '' ?low"
    unfolding code_points_def by (rule contains_map_inj[OF i])
  have s1: "split_str (code_points ''to '') (code_points ?low) = map code_points (split_str ''to '' ?low)"
    unfolding code_points_def using split_str_map_inj[OF i, of "''to ''" ?low] by (simp add: code_points_def[abs_def])
  show ?thesis
  proof (cases "contains ''to '' ?low \<and> length (split_str ''to '' ?low) > 1")
    case True
    let ?part = "split_str ''to '' ?low ! 1"
    have p: "split_str (code_points ''to '') (code_points ?low) ! 1 = code_points ?part"
      unfolding s1 using True by simp
    have s2: "split_str (code_points '' '') (code_points ?part) = map code_points (split_str '' '' ?part)"
      unfolding code_points_def using split_str_map_inj[OF i, of "'' ''" ?part] by simp
    have h: "hd (split_str (code_points '' '') (code_points ?part)) = code_points (hd (split_str '' '' ?part))"
      unfolding s2 using split_str_nonempty[of "'' ''" ?part] by (simp add: hd_map)
    have c2: "contains (code_points ''@'') (code_points (hd (split_str '' '' ?part)))
        = contains ''@'' (hd (split_str '' '' ?part))"
      unfolding code_points_def by (rule contains_map_inj[OF i])
    have l: "length (split_str (code_points ''to '') (code_points ?low)) > 1"
      unfolding s1 using True by simp
    show ?thesis
      unfolding recipient_in_def parse_recipient_def Let_def c1 p h c2
      using True l by simp
  next
    case False
    have l: "length (split_str (code_points ''to '') (code_points ?low)) = length (split_str ''to '' ?low)"
      unfolding s1 by simp
    show ?thesis
      unfolding recipient_in_def parse_recipient_def Let_def c1 l
      using False by auto
  qed
qed

lemma parse_recipient_u_ascii:
  assumes "list_all (\<lambda>c. of_char c < (128::nat)) s"
  shows "parse_recipient_u (code_points s) = Some (code_points (parse_recipient s))"
  by (simp add: parse_recipient_u_def lower_u_code_points[OF assms] recipient_in_code_points)

text \<open>
  C10, as the claim states it, fails: \<open>str.lower\<close> leaves the upper-case letter U+2102
  as it is, so the recipient parsed from \<open>Mail to C@X.com about x\<close>, with U+2102 for the
  \<open>C\<close>, starts with that upper-case letter.
\<close>

theorem recipient_uppercase_counterexample:
  "parse_recipient_u double_struck_instruction = Some (0x2102 # code_points ''@x.com'')
   \<and> upper_cp 0x2102"
  by (simp add: parse_recipient_u_def lower_u_def recipient_in_def double_struck_instruction_def
      code_points_def recorded_cp_def lower_cp_def upper_cp_def default_recipient_def)

text \<open>
  C10, amended. The parser cuts the recipient out of the lower-cased copy of the
  instruction: whatever \<open>instruction.lower()\<close> is, the parsed recipient is the default
  address or a contiguous part of that copy, never of the instruction as it was typed.
  For every instruction of code points below 256 (ASCII and Latin-1) the parser returns a
  recipient without any upper-case letter; the instruction
  \<open>Send an email to John@Example.com\<close> yields \<open>john@example.com\<close>. On ASCII instructions
  this is the recipient of \<open>parse_email_instruction\<close>.
\<close>

theorem recipient_from_lowered_copy:
  "(recipient_in low = code_points default_recipient \<or> sublist (recipient_in low) low)
   \<and> (list_all (\<lambda>c. c < 256) i
    \<longrightarrow> (\<exists>r. parse_recipient_u i = Some r \<and> list_all (\<lambda>c. \<not> upper_cp c) r))
   \<and> (list_all (\<lambda>c. of_char c < (128::nat)) s
    \<longrightarrow> parse_recipient_u (code_points s)
          = Some (code_points (recipient (parse_email_instruction s))))
   \<and> parse_recipient_u (code_points john_instruction) = Some (code_points ''john@example.com'')"
proof (intro conjI impI)
  show "recipient_in low = code_points default_recipient \<or> sublist (recipient_in low) low"
    by (rule recipient_in_cases)
next
  assume "list_all (\<lambda>c. c < 256) i"
  from latin1_recipient[OF this]
  show "\<exists>r. parse_recipient_u i = Some r \<and> list_all (\<lambda>c. \<not> upper_cp c) r" by blast
next
  assume "list_all (\<lambda>c. of_char c < (128::nat)) s"
  from parse_recipient_u_ascii[OF this]
  show "parse_recipient_u (code_points s)
      = Some (code_points (recipient (parse_email_instruction s)))"
    by (simp add: parse_email_instruction_def)
next
  show "parse_recipient_u (code_points john_instruction) = Some (code_points ''john@example.com'')"
    by (simp add: parse_recipient_u_def lower_u_def recipient_in_def john_instruction_def
        code_points_def recorded_cp_def lower_cp_def default_recipient_def)
qed

lemma john_is_ascii: "list_all (\<lambda>c. of_char c < (128::nat)) john_instruction"
  by (simp add: john_instruction_def)

lemma john_is_latin1: "list_all (\<lambda>c. c < 256) (code_points john_instruction)"
  by (simp add: john_instruction_def code_points_def)

theorem recipient_from_lowered_copy_witness:
  "list_all (\<lambda>c. c < 256) (code_points john_instruction)
   \<and> list_all (\<lambda>c. of_char c < (128::nat)) john_instruction
   \<and> parse_recipient_u (code_points john_instruction) = Some (code_points ''john@example.com'')
   \<and> list_all (\<lambda>c. \<not> upper_cp c) (code_points ''john@example.com'')
   \<and> recipient (parse_email_instruction john_instruction) = ''john@example.com''"
proof -
  note t = recipient_from_lowered_copy
             [of "map lower_cp (code_points john_instruction)" "code_points john_instruction"
                 john_instruction]
  have p: "parse_recipient_u (code_points john_instruction) = Some (code_points ''john@example.com'')"
    using t by (elim conjE)
  from t have "list_all (\<lambda>c. c < 256) (code_points john_instruction)
      \<longrightarrow> (\<exists>r. parse_recipient_u (code_points john_instruction) = Some r
               \<and> list_all (\<lambda>c. \<not> upper_cp c) r)"
    by (elim conjE)
  then obtain r where "parse_recipient_u (code_points john_instruction) = Some r"
    and lr: "list_all (\<lambda>c. \<not> upper_cp c) r"
    using john_is_latin1 by blast
  with p have "r = code_points ''john@example.com''" by simp
  with lr have u: "list_all (\<lambda>c. \<not> upper_cp c) (code_points ''john@example.com'')" by simp
  from t have "list_all (\<lambda>c. of_char c < (128::nat)) john_instruction
      \<longrightarrow> parse_recipient_u (code_points john_instruction)
            = Some (code_points (recipient (parse_email_instruction john_instruction)))"
    by (elim conjE)
  with john_is_ascii p
  have "code_points (recipient (parse_email_instruction john_instruction))
      = code_points ''john@example.com''" by simp
  then have e: "recipient (parse_email_instruction john_instruction) = ''john@example.com''"
    unfolding code_points_def by (rule map_injective) (rule inj_of_char)
  show ?thesis by (intro conjI john_is_latin1 john_is_ascii p u e)
qed

end
